theory Spec2Isabelle
  imports Main
begin

section \<open>Values, failures and tasks\<close>

text \<open>
  The objects of the program that the engines touch.

  \<^item> \<open>pyval\<close>: the values a task is resumed with. \<open>VInfo r\<close> is a reference to
    the info dict of the Rotator with address \<open>r\<close> (the dicts are shared and
    mutated, so they live in a store and are passed by reference);
    \<open>VAllInfo\<close> is a reference to the \<open>coro_info\<close> dict.
  \<^item> \<open>exn\<close>: a raised exception other than \<open>StopIteration\<close>.
    \<open>Exception t\<close> is an instance of \<open>Exception\<close>, \<open>BaseException t\<close> an
    instance of \<open>BaseException\<close> that is not an \<open>Exception\<close>
    (\<open>KeyboardInterrupt\<close>, \<open>SystemExit\<close>, \<open>CancelledError\<close>).
    The source tests a pending failure with \<open>if exc:\<close>; exception instances
    are truthy, so the test is \<open>exc \<noteq> None\<close>.
  \<^item> \<open>obj\<close>: an argument of a request, a value or a coroutine object.
  \<^item> \<open>request\<close>: the triple \<open>(name, args, kwargs)\<close> that \<open>_icall\<close> yields.
  \<^item> \<open>step\<close>: what \<open>send\<close> or \<open>throw\<close> on a coroutine does: it yields a
    request and stays suspended (the second argument of \<open>Yield\<close> is the
    coroutine after the step), raises \<open>StopIteration(v)\<close> (\<open>Return v\<close>), or
    raises another exception (\<open>Raise e\<close>).
  \<^item> \<open>coro\<close>: a coroutine object, by its two entry points. A coroutine may
    yield forever, hence a codatatype.
\<close>

datatype pyval = VNone | VInt int | VStr string | VTuple "pyval list" | VInfo nat | VAllInfo

datatype exn = Exception string | BaseException string

fun is_Exception :: "exn \<Rightarrow> bool" where
  "is_Exception (Exception t) = True"
| "is_Exception (BaseException t) = False"

datatype 'c obj = OVal pyval | OCoro 'c

datatype 'c request =
  Request (req_name: string) (req_args: "'c obj list") (req_kwargs: "(string \<times> 'c obj) list")

datatype 'c step = Yield "'c request" 'c | Return pyval | Raise exn

codatatype coro = Coro (send: "pyval \<Rightarrow> coro step") (throw: "exn \<Rightarrow> coro step")

text \<open>
  \<open>stack[-1].send(val)\<close> or \<open>stack[-1].throw(exc)\<close>, chosen by \<open>if exc:\<close>.
  An object that is no coroutine has neither method: \<open>AttributeError\<close>.
\<close>

fun resume :: "coro obj \<Rightarrow> pyval \<Rightarrow> exn option \<Rightarrow> coro step" where
  "resume (OCoro c) v None = send c v"
| "resume (OCoro c) v (Some e) = throw c e"
| "resume (OVal x) v exc = Raise (Exception ''AttributeError'')"

text \<open>How a task or a run ends: \<open>StopIteration(v)\<close>, or another exception.\<close>

datatype outcome = Returned pyval | Raised exn

section \<open>IBase: the action table\<close>

text \<open>
  An entry of the action table: one of the engine's own closures
  (\<open>Builtin\<close>), a callable of the embedder (\<open>Action\<close>, which may change
  the embedder's own state \<open>'u\<close> and returns a value or raises), or an object
  that cannot be called and awaited (\<open>NonAction\<close>: calling it raises
  \<open>TypeError\<close>). Actions that suspend to an outer event loop are outside the model.
\<close>

datatype ('b, 'u) handler =
    Builtin 'b
  | NonAction
  | Action "coro obj list \<Rightarrow> (string \<times> coro obj) list \<Rightarrow> 'u \<Rightarrow> (exn + pyval) \<times> 'u"

type_synonym ('b, 'u) table = "string \<rightharpoonup> ('b, 'u) handler"

text \<open>The \<open>actions\<close> argument of \<open>run\<close>: a dict, or any other object.\<close>

datatype ('b, 'u) actions_arg = NotDict | Dict "('b, 'u) table"

text \<open>
  The three \<open>raise\<close> statements of \<open>_check_actions\<close>:
  \<open>TypeError("'actions' is not an instance of 'dict'")\<close>,
  \<open>ValueError(f"{name!r} is in 'actions'")\<close> and
  \<open>ValueError(f"{name!r} is not in 'locals_'")\<close>.
\<close>

datatype setup_error =
    TypeError_not_dict
  | ValueError_in_actions string
  | ValueError_not_in_locals string

text \<open>
  The \<open>for name in cls._reserved\<close> loop of \<open>_check_actions\<close>. The dict is
  mutated in place, so the loop returns the dict as it is when the loop ends
  or raises, together with the exception raised, if any.
\<close>

fun check_names ::
  "string list \<Rightarrow> ('b, 'u) table \<Rightarrow> ('b, 'u) table \<Rightarrow> ('b, 'u) table \<times> setup_error option" where
  "check_names [] actions locs = (actions, None)"
| "check_names (name # rest) actions locs =
     (case actions name of
        Some h \<Rightarrow> (actions, Some (ValueError_in_actions name))
      | None \<Rightarrow>
          (case locs name of
             None \<Rightarrow> (actions, Some (ValueError_not_in_locals name))
           | Some f \<Rightarrow> check_names rest (actions(name \<mapsto> f)) locs))"

fun check_actions ::
  "string list \<Rightarrow> ('b, 'u) actions_arg \<Rightarrow> ('b, 'u) table \<Rightarrow> ('b, 'u) actions_arg \<times> setup_error option" where
  "check_actions reserved NotDict locs = (NotDict, Some TypeError_not_dict)"
| "check_actions reserved (Dict actions) locs =
     (case check_names reserved actions locs of (actions', err) \<Rightarrow> (Dict actions', err))"

text \<open>
  \<open>_action_getter\<close>: \<open>actions[name]\<close>, a \<open>KeyError\<close> when the name is not
  in the table. The call itself depends on the engine, which passes it as \<open>call\<close>.
\<close>

definition get_action ::
  "('b, 'u) table \<Rightarrow> (('b, 'u) handler \<Rightarrow> coro obj list \<Rightarrow> (string \<times> coro obj) list \<Rightarrow> 's \<Rightarrow> (exn + pyval) \<times> 's)
     \<Rightarrow> coro request \<Rightarrow> 's \<Rightarrow> (exn + pyval) \<times> 's" where
  "get_action actions call req s =
     (case actions (req_name req) of
        None \<Rightarrow> (Inl (Exception ''KeyError''), s)
      | Some h \<Rightarrow> call h (req_args req) (req_kwargs req) s)"

text \<open>The result of \<open>run\<close>: a setup error, or the way the run ended.\<close>

datatype run_result = SetupError setup_error | Finished outcome

section \<open>IStack\<close>

datatype stack_builtin = StackAdd


text \<open>
  \<open>locals()\<close> at the call of \<open>_check_actions\<close> in \<open>IStack.run\<close>: the
  parameters \<open>cls\<close>, \<open>coro\<close> and \<open>actions\<close> and the closure \<open>stack_add\<close>
  (\<open>stack\<close>, \<open>val\<close> and \<open>exc\<close> are bound later).
\<close>

definition IStack_locals :: "(stack_builtin, 'u) table" where
  "IStack_locals =
     [''cls'' \<mapsto> NonAction, ''coro'' \<mapsto> NonAction, ''actions'' \<mapsto> NonAction,
      ''stack_add'' \<mapsto> Builtin StackAdd]"

text \<open>
  Calling a table entry in the Stack engine, on the state (stack, embedder's
  state). The closure \<open>stack_add(coro)\<close> appends to the stack and returns
  \<open>None\<close>; its parameter may be passed by keyword; any other argument list
  is a \<open>TypeError\<close>.
\<close>

fun stack_call ::
  "(stack_builtin, 'u) handler \<Rightarrow> coro obj list \<Rightarrow> (string \<times> coro obj) list
     \<Rightarrow> coro obj list \<times> 'u \<Rightarrow> (exn + pyval) \<times> coro obj list \<times> 'u" where
  "stack_call (Builtin StackAdd) [x] [] (stack, u) = (Inr VNone, stack @ [x], u)"
| "stack_call (Builtin StackAdd) [] [(k, x)] (stack, u) =
     (if k = ''coro'' then (Inr VNone, stack @ [x], u)
      else (Inl (Exception ''TypeError''), stack, u))"
| "stack_call (Builtin StackAdd) as kw (stack, u) = (Inl (Exception ''TypeError''), stack, u)"
| "stack_call NonAction as kw (stack, u) = (Inl (Exception ''TypeError''), stack, u)"
| "stack_call (Action f) as kw (stack, u) = (case f as kw u of (r, u') \<Rightarrow> (r, stack, u'))"

text \<open>
  The state of the \<open>while True\<close> loop of \<open>IStack.run\<close> between two
  iterations, or the end of \<open>run\<close>.
\<close>

datatype 'u stack_ctl =
    Continue "coro obj list" pyval "exn option" 'u
  | Finish outcome 'u

text \<open>
  The \<open>except BaseException as e\<close> block: \<open>out\<close> is \<open>Returned v\<close> for
  \<open>StopIteration(v)\<close> and \<open>Raised e\<close> for any other exception.
\<close>

definition stack_except :: "coro obj list \<Rightarrow> outcome \<Rightarrow> 'u \<Rightarrow> 'u stack_ctl" where
  "stack_except stack out u =
     (if length stack > 1 then
        (case out of
           Returned v \<Rightarrow> Continue (butlast stack) v None u
         | Raised e \<Rightarrow> Continue (butlast stack) VNone (Some e) u)
      else Finish out u)"

text \<open>
  One iteration of the loop. \<open>stack[-1]\<close> on an empty list is an
  \<open>IndexError\<close>, caught like any other exception. After a yield the top
  coroutine object is in its next state. An \<open>Exception\<close> of the action is
  kept for the next iteration; any other exception of the action reaches
  the outer \<open>except\<close> block.
\<close>

definition stack_iter ::
  "(stack_builtin, 'u) table \<Rightarrow> coro obj list \<Rightarrow> pyval \<Rightarrow> exn option \<Rightarrow> 'u \<Rightarrow> 'u stack_ctl" where
  "stack_iter actions stack val exc u =
     (if stack = [] then stack_except stack (Raised (Exception ''IndexError'')) u
      else
        (case resume (last stack) val exc of
           Yield req k \<Rightarrow>
             (case get_action actions stack_call req (butlast stack @ [OCoro k], u) of
                (Inr v, stack', u') \<Rightarrow> Continue stack' v None u'
              | (Inl e, stack', u') \<Rightarrow>
                  if is_Exception e then Continue stack' VNone (Some e) u'
                  else stack_except stack' (Raised e) u')
         | Return v \<Rightarrow> stack_except stack (Returned v) u
         | Raise e \<Rightarrow> stack_except stack (Raised e) u))"

text \<open>
  The loop, with fuel: \<open>None\<close> when the fuel does not suffice (the loop of
  the source may run forever).
\<close>

fun stack_loop ::
  "nat \<Rightarrow> (stack_builtin, 'u) table \<Rightarrow> coro obj list \<Rightarrow> pyval \<Rightarrow> exn option \<Rightarrow> 'u
     \<Rightarrow> (outcome \<times> 'u) option" where
  "stack_loop 0 actions stack val exc u = None"
| "stack_loop (Suc n) actions stack val exc u =
     (case stack_iter actions stack val exc u of
        Continue stack' val' exc' u' \<Rightarrow> stack_loop n actions stack' val' exc' u'
      | Finish out u' \<Rightarrow> Some (out, u'))"

text \<open>
  \<open>IStack.run(coro, actions=actions)\<close> for a class whose \<open>_reserved\<close> is
  \<open>reserved\<close>. It returns the caller's \<open>actions\<close> object as \<open>run\<close> leaves
  it, and the result with the embedder's state (\<open>None\<close>: out of fuel).
\<close>

definition IStack_run_cls ::
  "string list \<Rightarrow> nat \<Rightarrow> coro obj \<Rightarrow> (stack_builtin, 'u) actions_arg \<Rightarrow> 'u
     \<Rightarrow> (stack_builtin, 'u) actions_arg \<times> (run_result \<times> 'u) option" where
  "IStack_run_cls reserved fuel coro actions u =
     (case check_actions reserved actions IStack_locals of
        (actions', Some err) \<Rightarrow> (actions', Some (SetupError err, u))
      | (NotDict, None) \<Rightarrow> (NotDict, Some (SetupError TypeError_not_dict, u))
      | (Dict table, None) \<Rightarrow>
          (Dict table,
           map_option (\<lambda>(out, u'). (Finished out, u')) (stack_loop fuel table [coro] VNone None u)))"


section \<open>IRotator\<close>

datatype rot_builtin = NewCoro | WaitCoro | ThisId | ThisInfo | AllInfo | Schedule

definition IRotator_reserved :: "string list" where
  "IRotator_reserved =
     [''new_coro'', ''wait_coro'', ''this_id'', ''this_info'', ''all_info'', ''schedule'']"

text \<open>
  \<open>locals()\<close> at the call of \<open>_check_actions\<close> in \<open>IRotator.run\<close>: the
  three parameters and the ten local functions (the variables the closures
  share are bound later). The four helpers \<open>_suspend\<close>, \<open>_pull_active\<close>,
  \<open>_check_info\<close> and \<open>_new_coro_adder\<close> are not in \<open>_reserved\<close>, so
  \<open>_check_actions\<close> never inserts them; they are entered as \<open>NonAction\<close>
  because none of them returns an awaitable.
\<close>

definition IRotator_locals :: "(rot_builtin, 'u) table" where
  "IRotator_locals =
     [''cls'' \<mapsto> NonAction, ''coro'' \<mapsto> NonAction, ''actions'' \<mapsto> NonAction,
      ''_suspend'' \<mapsto> NonAction, ''_pull_active'' \<mapsto> NonAction,
      ''_check_info'' \<mapsto> NonAction, ''_new_coro_adder'' \<mapsto> NonAction,
      ''new_coro'' \<mapsto> Builtin NewCoro, ''wait_coro'' \<mapsto> Builtin WaitCoro,
      ''this_id'' \<mapsto> Builtin ThisId, ''this_info'' \<mapsto> Builtin ThisInfo,
      ''all_info'' \<mapsto> Builtin AllInfo, ''schedule'' \<mapsto> Builtin Schedule]"

text \<open>
  The info dict of a coroutine, with the six keys \<open>_new_coro_adder\<close> gives
  it. \<open>waiting_coros\<close> holds references to info dicts.
\<close>

record info =
  val :: pyval
  exc :: "exn option"
  coro :: "coro obj"
  active :: bool
  terminated :: bool
  waiting_coros :: "nat list"

text \<open>
  The state of a run. \<open>infos\<close> is the store of the info dicts: the dict made
  for id \<open>r\<close> has address \<open>r\<close>, and the counter \<open>id_\<close> of
  \<open>_new_coro_adder\<close> is the number of dicts made so far. \<open>coro_info\<close> is the
  dict of the live coroutines, by its keys in insertion order (the value
  under key \<open>r\<close> is the dict at address \<open>r\<close>). \<open>ustate\<close> is the embedder's state.
\<close>

record 'u rot =
  infos :: "info list"
  coro_info :: "nat list"
  ustate :: 'u

text \<open>The dict literal of \<open>_new_coro_adder\<close>.\<close>

definition new_info :: "coro obj \<Rightarrow> info" where
  "new_info c =
     \<lparr>val = VNone, exc = None, coro = c, active = True, terminated = False, waiting_coros = []\<rparr>"

text \<open>\<open>coro_adder.send(coro)\<close>: one turn of the generator \<open>_new_coro_adder\<close>.\<close>

definition coro_adder_send :: "coro obj \<Rightarrow> 'u rot \<Rightarrow> nat \<times> 'u rot" where
  "coro_adder_send c st =
     (let id_new = length (infos st) in
      (id_new, st\<lparr>infos := infos st @ [new_info c], coro_info := coro_info st @ [id_new]\<rparr>))"

text \<open>
  Calling a table entry in the Rotator, for the current coroutine \<open>cid\<close>
  (whose info dict \<open>cinfo\<close> is the one at address \<open>cid\<close>), on the state
  (the variable \<open>active\<close> of \<open>run\<close>, the state of the run).

  \<^item> \<open>new_coro(coro, /)\<close> returns the new info dict.
  \<^item> \<open>wait_coro(info, /)\<close> reads \<open>info["terminated"]\<close>: a \<open>KeyError\<close> on
    the \<open>coro_info\<close> dict, a \<open>TypeError\<close> on any object that is no dict.
    On a dict that is not terminated it appends \<open>cinfo\<close> to
    \<open>info["waiting_coros"]\<close> and then sets \<open>cinfo["active"]\<close> to false.
    A reference to a dict that was never made denotes no object; it is
    answered like the objects that are no dict.
  \<^item> \<open>schedule()\<close> calls \<open>_pull_active\<close>, which sets the variable
    \<open>active\<close> of \<open>run\<close> to false.
  \<^item> A wrong argument list is a \<open>TypeError\<close>.
\<close>

fun rot_call ::
  "nat \<Rightarrow> (rot_builtin, 'u) handler \<Rightarrow> coro obj list \<Rightarrow> (string \<times> coro obj) list
     \<Rightarrow> bool \<times> 'u rot \<Rightarrow> (exn + pyval) \<times> bool \<times> 'u rot" where
  "rot_call cid (Builtin NewCoro) [c] [] (a, st) =
     (case coro_adder_send c st of (r, st') \<Rightarrow> (Inr (VInfo r), a, st'))"
| "rot_call cid (Builtin WaitCoro) [OVal (VInfo r)] [] (a, st) =
     (if r < length (infos st) then
        (if \<not> terminated (infos st ! r) then
           (let infos1 = (infos st)[r := (infos st ! r)
                            \<lparr>waiting_coros := waiting_coros (infos st ! r) @ [cid]\<rparr>];
                infos2 = infos1[cid := (infos1 ! cid)\<lparr>active := False\<rparr>]
            in (Inr VNone, a, st\<lparr>infos := infos2\<rparr>))
         else (Inr VNone, a, st))
      else (Inl (Exception ''TypeError''), a, st))"
| "rot_call cid (Builtin WaitCoro) [OVal VAllInfo] [] (a, st) = (Inl (Exception ''KeyError''), a, st)"
| "rot_call cid (Builtin ThisId) [] [] (a, st) = (Inr (VInt (int cid)), a, st)"
| "rot_call cid (Builtin ThisInfo) [] [] (a, st) = (Inr (VInfo cid), a, st)"
| "rot_call cid (Builtin AllInfo) [] [] (a, st) = (Inr VAllInfo, a, st)"
| "rot_call cid (Builtin Schedule) [] [] (a, st) = (Inr VNone, False, st)"
| "rot_call cid (Builtin b) as kw (a, st) = (Inl (Exception ''TypeError''), a, st)"
| "rot_call cid NonAction as kw (a, st) = (Inl (Exception ''TypeError''), a, st)"
| "rot_call cid (Action f) as kw (a, st) =
     (case f as kw (ustate st) of (r, u') \<Rightarrow> (r, a, st\<lparr>ustate := u'\<rparr>))"

text \<open>
  The \<open>for info in cinfo["waiting_coros"]\<close> loop of the \<open>except\<close> block:
  every waiting dict that is not terminated is made active, its \<open>val\<close> and
  \<open>exc\<close> cleared.
\<close>

fun wake :: "nat list \<Rightarrow> info list \<Rightarrow> info list" where
  "wake [] infs = infs"
| "wake (w # ws) infs =
     wake ws (if \<not> terminated (infs ! w)
              then infs[w := (infs ! w)\<lparr>active := True, val := VNone, exc := None\<rparr>]
              else infs)"

text \<open>
  The result of visiting one coroutine of the sweep: the \<open>while\<close> loop ended
  (with the final value of the variable \<open>active\<close>), the coroutine terminated
  and the \<open>except\<close> block ended, or the \<open>except\<close> block raised again
  (the exception was no \<open>Exception\<close>), which ends \<open>run\<close>.
\<close>

datatype 'u visit_result =
    Suspended bool "'u rot"
  | Terminated "'u rot"
  | Aborted exn "'u rot"

text \<open>The \<open>except BaseException as e\<close> block of the sweep.\<close>

definition rot_except :: "nat \<Rightarrow> outcome \<Rightarrow> 'u rot \<Rightarrow> 'u visit_result" where
  "rot_except cid out st =
     (let is1 = (infos st)[cid := (infos st ! cid)\<lparr>active := False, terminated := True\<rparr>];
          is2 = (case out of
                   Returned v \<Rightarrow> is1[cid := (is1 ! cid)\<lparr>val := v, exc := None\<rparr>]
                 | Raised e \<Rightarrow> is1[cid := (is1 ! cid)\<lparr>val := VNone, exc := Some e\<rparr>]);
          is3 = wake (waiting_coros (is2 ! cid)) is2;
          st' = st\<lparr>infos := is3, coro_info := removeAll cid (coro_info st)\<rparr>
      in (case out of
            Returned v \<Rightarrow> Terminated st'
          | Raised e \<Rightarrow> if is_Exception e then Terminated st' else Aborted e st'))"

text \<open>
  The \<open>while active and cinfo["active"]\<close> loop with the \<open>try\<close> around it,
  with fuel. \<open>a\<close> is the variable \<open>active\<close>.
\<close>

fun visit_loop ::
  "nat \<Rightarrow> (rot_builtin, 'u) table \<Rightarrow> nat \<Rightarrow> bool \<Rightarrow> 'u rot \<Rightarrow> 'u visit_result option" where
  "visit_loop 0 actions cid a st =
     (if a \<and> active (infos st ! cid) then None else Some (Suspended a st))"
| "visit_loop (Suc n) actions cid a st =
     (if a \<and> active (infos st ! cid) then
        (case resume (coro (infos st ! cid)) (val (infos st ! cid)) (exc (infos st ! cid)) of
           Yield req k \<Rightarrow>
             (case get_action actions (rot_call cid) req
                     (a, st\<lparr>infos := (infos st)[cid := (infos st ! cid)\<lparr>coro := OCoro k\<rparr>]\<rparr>) of
                (Inr v, a', st') \<Rightarrow>
                  visit_loop n actions cid a'
                    (st'\<lparr>infos := (infos st')[cid := (infos st' ! cid)\<lparr>val := v, exc := None\<rparr>]\<rparr>)
              | (Inl e, a', st') \<Rightarrow>
                  if is_Exception e then
                    visit_loop n actions cid a'
                      (st'\<lparr>infos := (infos st')[cid := (infos st' ! cid)\<lparr>val := VNone, exc := Some e\<rparr>]\<rparr>)
                  else Some (rot_except cid (Raised e) st'))
         | Return v \<Rightarrow> Some (rot_except cid (Returned v) st)
         | Raise e \<Rightarrow> Some (rot_except cid (Raised e) st))
      else Some (Suspended a st))"

text \<open>
  The body of the \<open>for\<close> loop for one pair \<open>(cid, cinfo)\<close> of the snapshot.
  \<open>_check_info\<close> changes nothing on a dict that has the six keys.
\<close>

definition visit :: "nat \<Rightarrow> (rot_builtin, 'u) table \<Rightarrow> nat \<Rightarrow> 'u rot \<Rightarrow> 'u visit_result option" where
  "visit n actions cid st = visit_loop n actions cid (active (infos st ! cid)) st"

text \<open>
  The \<open>for\<close> loop over the snapshot: \<open>Inr\<close> the state when the loop ends,
  \<open>Inl\<close> the exception that ended \<open>run\<close>.
\<close>

fun sweep ::
  "nat \<Rightarrow> (rot_builtin, 'u) table \<Rightarrow> nat list \<Rightarrow> 'u rot \<Rightarrow> (exn \<times> 'u rot + 'u rot) option" where
  "sweep n actions [] st = Some (Inr st)"
| "sweep n actions (cid # rest) st =
     (case visit n actions cid st of
        None \<Rightarrow> None
      | Some (Suspended a st') \<Rightarrow> sweep n actions rest st'
      | Some (Terminated st') \<Rightarrow> sweep n actions rest st'
      | Some (Aborted e st') \<Rightarrow> Some (Inl (e, st')))"

text \<open>The snapshot \<open>list(reversed(coro_info.items()))\<close>, by its keys.\<close>

definition snapshot :: "'u rot \<Rightarrow> nat list" where
  "snapshot st = rev (coro_info st)"

text \<open>
  The \<open>while not main_info["terminated"]\<close> loop, with fuel; \<open>main_info\<close>
  is the dict at address 0.
\<close>

fun rot_loop ::
  "nat \<Rightarrow> (rot_builtin, 'u) table \<Rightarrow> 'u rot \<Rightarrow> (exn \<times> 'u rot + 'u rot) option" where
  "rot_loop 0 actions st = (if terminated (infos st ! 0) then Some (Inr st) else None)"
| "rot_loop (Suc n) actions st =
     (if terminated (infos st ! 0) then Some (Inr st)
      else
        (case sweep n actions (snapshot st) st of
           None \<Rightarrow> None
         | Some (Inl abort) \<Rightarrow> Some (Inl abort)
         | Some (Inr st') \<Rightarrow> rot_loop n actions st'))"

text \<open>\<open>IRotator.get_result\<close>, on an info dict that has the keys \<open>val\<close> and \<open>exc\<close>.\<close>

definition get_result :: "info \<Rightarrow> outcome" where
  "get_result i = (case exc i of Some e \<Rightarrow> Raised e | None \<Rightarrow> Returned (val i))"

text \<open>The state after \<open>main_info = coro_adder.send(coro)\<close>.\<close>

definition rot_init :: "coro obj \<Rightarrow> 'u \<Rightarrow> 'u rot" where
  "rot_init c u = snd (coro_adder_send c \<lparr>infos = [], coro_info = [], ustate = u\<rparr>)"

text \<open>
  \<open>IRotator.run(coro, actions=actions)\<close> for a class whose \<open>_reserved\<close> is
  \<open>reserved\<close>: the caller's \<open>actions\<close> object as \<open>run\<close> leaves it, and the
  result with the final state of the run (\<open>None\<close>: out of fuel).
\<close>

definition IRotator_run_cls ::
  "string list \<Rightarrow> nat \<Rightarrow> coro obj \<Rightarrow> (rot_builtin, 'u) actions_arg \<Rightarrow> 'u
     \<Rightarrow> (rot_builtin, 'u) actions_arg \<times> (run_result \<times> 'u rot) option" where
  "IRotator_run_cls reserved fuel c actions u =
     (case check_actions reserved actions IRotator_locals of
        (actions', Some err) \<Rightarrow>
          (actions', Some (SetupError err, \<lparr>infos = [], coro_info = [], ustate = u\<rparr>))
      | (NotDict, None) \<Rightarrow>
          (NotDict, Some (SetupError TypeError_not_dict, \<lparr>infos = [], coro_info = [], ustate = u\<rparr>))
      | (Dict table, None) \<Rightarrow>
          (Dict table,
           (case rot_loop fuel table (rot_init c u) of
              None \<Rightarrow> None
            | Some (Inl (e, st)) \<Rightarrow> Some (Finished (Raised e), st)
            | Some (Inr st) \<Rightarrow> Some (Finished (get_result (infos st ! 0)), st))))"

definition IRotator_run ::
  "nat \<Rightarrow> coro obj \<Rightarrow> (rot_builtin, 'u) actions_arg \<Rightarrow> 'u
     \<Rightarrow> (rot_builtin, 'u) actions_arg \<times> (run_result \<times> 'u rot) option" where
  "IRotator_run = IRotator_run_cls IRotator_reserved"

section \<open>Tasks used in the statements\<close>

text \<open>
  Small coroutines, as an embedder would write them with \<open>async def\<close>.

  \<^item> \<open>returner\<close>: a suspended frame that returns what it is resumed with and
    lets a thrown exception through (the tail \<open>return await \<dots>\<close>).
  \<^item> \<open>raiser F\<close>: \<open>async def f(): raise F\<close>.
  \<^item> \<open>catcher w\<close>: a suspended frame inside \<open>try: \<dots> except BaseException: return w\<close>.
  \<^item> \<open>caller sub k\<close>: \<open>await IStack.stack_add(sub)\<close>, then go on as \<open>k\<close>.
  \<^item> \<open>nest n c\<close>:
    \<open>async def nest(n): return c if n == 0 else await IStack.stack_add(nest(n - 1))\<close>.
\<close>

definition returner :: coro where
  "returner = Coro (\<lambda>v. Return v) (\<lambda>e. Raise e)"



definition caller :: "coro \<Rightarrow> coro \<Rightarrow> coro" where
  "caller sub k = Coro (\<lambda>v. Yield (Request ''stack_add'' [OCoro sub] []) k) (\<lambda>e. Raise e)"

fun nest :: "nat \<Rightarrow> pyval \<Rightarrow> coro" where
  "nest 0 c = Coro (\<lambda>v. Return c) (\<lambda>e. Raise e)"
| "nest (Suc n) c = caller (nest n c) returner"


text \<open>
  \<open>asking req k\<close>: a coroutine whose first step is \<open>await\<close> of the request
  \<open>req\<close> and which goes on as \<open>k\<close>.
\<close>

definition asking :: "coro request \<Rightarrow> coro \<Rightarrow> coro" where
  "asking req k = Coro (\<lambda>v. Yield req k) (\<lambda>e. Raise e)"

text \<open>The table that \<open>_check_actions\<close> makes of the empty dict in \<open>IRotator.run\<close>.\<close>

definition rot_builtins :: "(rot_builtin, 'u) table" where
  "rot_builtins =
     [''new_coro'' \<mapsto> Builtin NewCoro, ''wait_coro'' \<mapsto> Builtin WaitCoro,
      ''this_id'' \<mapsto> Builtin ThisId, ''this_info'' \<mapsto> Builtin ThisInfo,
      ''all_info'' \<mapsto> Builtin AllInfo, ''schedule'' \<mapsto> Builtin Schedule]"

text \<open>The state of the run after a visit, and after a sweep or the loop.\<close>

fun vstate :: "'u visit_result \<Rightarrow> 'u rot" where
  "vstate (Suspended a st) = st"
| "vstate (Terminated st) = st"
| "vstate (Aborted e st) = st"

fun rstate :: "exn \<times> 'u rot + 'u rot \<Rightarrow> 'u rot" where
  "rstate (Inl (e, st)) = st"
| "rstate (Inr st) = st"

text \<open>
  The invariant of the Rotator's state: a terminated info dict is not
  active, and every key of \<open>coro_info\<close> is the address of a dict that is
  not terminated.
\<close>

definition rot_inv :: "'u rot \<Rightarrow> bool" where
  "rot_inv st \<longleftrightarrow>
     list_all (\<lambda>i. terminated i \<longrightarrow> \<not> active i) (infos st) \<and>
     list_all (\<lambda>r. r < length (infos st) \<and> \<not> terminated (infos st ! r)) (coro_info st)"




text \<open>
  \<open>after c ins\<close> is the coroutine object \<open>c\<close> after it has been resumed
  with the inputs \<open>ins\<close> in turn (a value to send, or an exception to
  throw) and has yielded every time. \<open>later c c'\<close>: \<open>c'\<close> is a state that
  the coroutine \<open>c\<close> reaches.
\<close>

fun after :: "coro obj \<Rightarrow> (pyval \<times> exn option) list \<Rightarrow> coro obj option" where
  "after c [] = Some c"
| "after c ((v, e) # ins) =
     (case resume c v e of
        Yield req k \<Rightarrow> after (OCoro k) ins
      | Return x \<Rightarrow> None
      | Raise x \<Rightarrow> None)"

definition later :: "coro obj \<Rightarrow> coro obj \<Rightarrow> bool" where
  "later c c' \<longleftrightarrow> (\<exists>ins. after c ins = Some c')"



section \<open>Setup validation\<close>

lemma check_names_append:
  "check_names pre actions locs = (actions1, None) \<Longrightarrow>
   check_names (pre @ rest) actions locs = check_names rest actions1 locs"
proof (induction pre arbitrary: actions)
  case Nil
  then show ?case by simp
next
  case (Cons a pre)
  show ?case
  proof (cases "actions a")
    case None
    note an = this
    show ?thesis
    proof (cases "locs a")
      case None
      with an Cons.prems show ?thesis by simp
    next
      case (Some f)
      with an Cons.prems have "check_names pre (actions(a \<mapsto> f)) locs = (actions1, None)" by simp
      note ih = Cons.IH[OF this]
      have "check_names ((a # pre) @ rest) actions locs =
            check_names (pre @ rest) (actions(a \<mapsto> f)) locs"
        using an Some by simp
      also have "\<dots> = check_names rest actions1 locs" by (rule ih)
      finally show ?thesis .
    qed
  next
    case (Some h)
    with Cons.prems show ?thesis by simp
  qed
qed

lemma check_names_ok_table:
  "check_names pre actions locs = (actions1, None) \<Longrightarrow>
   (\<forall>n \<in> set pre. actions n = None \<and> actions1 n = locs n \<and> actions1 n \<noteq> None) \<and>
   (\<forall>n. n \<notin> set pre \<longrightarrow> actions1 n = actions n) \<and> distinct pre"
proof (induction pre arbitrary: actions)
  case Nil
  then show ?case by simp
next
  case (Cons a pre)
  show ?case
  proof (cases "actions a")
    case None
    note an = this
    show ?thesis
    proof (cases "locs a")
      case None
      with an Cons.prems show ?thesis by simp
    next
      case (Some f)
      with an Cons.prems have *: "check_names pre (actions(a \<mapsto> f)) locs = (actions1, None)" by simp
      from Cons.IH[OF *]
      have ih1: "\<And>n. n \<in> set pre \<Longrightarrow> (actions(a \<mapsto> f)) n = None"
        and ih2: "\<And>n. n \<in> set pre \<Longrightarrow> actions1 n = locs n"
        and ih3: "\<And>n. n \<in> set pre \<Longrightarrow> actions1 n \<noteq> None"
        and ih4: "\<And>n. n \<notin> set pre \<Longrightarrow> actions1 n = (actions(a \<mapsto> f)) n"
        and ih5: "distinct pre"
        by blast+
      have a_notin: "a \<notin> set pre"
      proof
        assume "a \<in> set pre"
        then have "(actions(a \<mapsto> f)) a = None" by (rule ih1)
        then show False by simp
      qed
      have a1: "actions1 a = Some f" using ih4[OF a_notin] by simp
      have p1: "actions n = None" if n: "n \<in> set pre" for n
      proof -
        have "(actions(a \<mapsto> f)) n = None" using n by (rule ih1)
        moreover from n a_notin have "n \<noteq> a" by auto
        ultimately show ?thesis by simp
      qed
      have p4: "actions1 n = actions n" if "n \<notin> set (a # pre)" for n
        using that ih4[of n] by simp
      have "\<forall>n \<in> set (a # pre). actions n = None \<and> actions1 n = locs n \<and> actions1 n \<noteq> None"
        using p1 ih2 ih3 a1 an Some by simp
      moreover have "\<forall>n. n \<notin> set (a # pre) \<longrightarrow> actions1 n = actions n"
        using p4 by blast
      moreover have "distinct (a # pre)" using ih5 a_notin by simp
      ultimately show ?thesis by blast
    qed
  next
    case (Some h)
    with Cons.prems show ?thesis by simp
  qed
qed


lemma check_names_first_offender:
  assumes pre: "check_names pre actions locs = (actions1, None)"
      and bad: "actions name \<noteq> None \<or> locs name = None"
  shows "\<exists>err. check_names (pre @ name # post) actions locs = (actions1, Some err)
           \<and> (err = ValueError_in_actions name \<or> err = ValueError_not_in_locals name)"
proof -
  have eq: "check_names (pre @ name # post) actions locs = check_names (name # post) actions1 locs"
    using pre by (rule check_names_append)
  show ?thesis
  proof (cases "actions1 name")
    case (Some h)
    then show ?thesis using eq by simp
  next
    case None
    have "name \<notin> set pre"
    proof
      assume "name \<in> set pre"
      with check_names_ok_table[OF pre] have "actions1 name \<noteq> None" by blast
      with None show False by simp
    qed
    with check_names_ok_table[OF pre] have "actions1 name = actions name" by blast
    with None bad have "locs name = None" by simp
    with None show ?thesis using eq by simp
  qed
qed

text \<open>
  Claim C10. Setup validation is not atomic with respect to the caller's table.
  The reserved names are checked and inserted one at a time, in order: when
  the names \<open>pre\<close> pass and the next name is already in the table or has no
  local binding, \<open>run\<close> raises the corresponding \<open>ValueError\<close> and leaves
  in the caller's dict every name of \<open>pre\<close> (none of which was there
  before), bound to the engine's closure. Stated for the \<open>run\<close> of both
  engines; the witness is a run of each that raises and has changed the table.
\<close>

theorem setup_not_atomic:
  "(check_names pre sa IStack_locals = (sa1, None) \<and>
      (sa name \<noteq> None \<or> (IStack_locals :: (stack_builtin, 'u) table) name = None) \<longrightarrow>
    (\<exists>err. IStack_run_cls (pre @ name # post) fuel c (Dict sa) (u :: 'u)
              = (Dict sa1, Some (SetupError err, u))
          \<and> (err = ValueError_in_actions name \<or> err = ValueError_not_in_locals name))
    \<and> (\<forall>n \<in> set pre. sa n = None \<and> sa1 n = IStack_locals n \<and> sa1 n \<noteq> None))
   \<and>
   (check_names rpre ra IRotator_locals = (ra1, None) \<and>
      (ra rname \<noteq> None \<or> (IRotator_locals :: (rot_builtin, 'u) table) rname = None) \<longrightarrow>
    (\<exists>err st. IRotator_run_cls (rpre @ rname # rpost) fuel c (Dict ra) (u :: 'u)
              = (Dict ra1, Some (SetupError err, st))
          \<and> (err = ValueError_in_actions rname \<or> err = ValueError_not_in_locals rname))
    \<and> (\<forall>n \<in> set rpre. ra n = None \<and> ra1 n = IRotator_locals n \<and> ra1 n \<noteq> None))"
proof (intro conjI impI)
  assume a: "check_names pre sa IStack_locals = (sa1, None) \<and>
      (sa name \<noteq> None \<or> (IStack_locals :: (stack_builtin, 'u) table) name = None)"
  from check_names_first_offender[OF conjunct1[OF a] conjunct2[OF a], of post]
  obtain err where "check_names (pre @ name # post) sa IStack_locals = (sa1, Some err)"
    and "err = ValueError_in_actions name \<or> err = ValueError_not_in_locals name" by blast
  then show "\<exists>err. IStack_run_cls (pre @ name # post) fuel c (Dict sa) u
              = (Dict sa1, Some (SetupError err, u))
          \<and> (err = ValueError_in_actions name \<or> err = ValueError_not_in_locals name)"
    by (simp add: IStack_run_cls_def)
  from check_names_ok_table[OF conjunct1[OF a]]
  show "\<forall>n \<in> set pre. sa n = None \<and> sa1 n = IStack_locals n \<and> sa1 n \<noteq> None" by blast
next
  assume a: "check_names rpre ra IRotator_locals = (ra1, None) \<and>
      (ra rname \<noteq> None \<or> (IRotator_locals :: (rot_builtin, 'u) table) rname = None)"
  from check_names_first_offender[OF conjunct1[OF a] conjunct2[OF a], of rpost]
  obtain err where "check_names (rpre @ rname # rpost) ra IRotator_locals = (ra1, Some err)"
    and "err = ValueError_in_actions rname \<or> err = ValueError_not_in_locals rname" by blast
  then show "\<exists>err st. IRotator_run_cls (rpre @ rname # rpost) fuel c (Dict ra) u
              = (Dict ra1, Some (SetupError err, st))
          \<and> (err = ValueError_in_actions rname \<or> err = ValueError_not_in_locals rname)"
    by (simp add: IRotator_run_cls_def)
  from check_names_ok_table[OF conjunct1[OF a]]
  show "\<forall>n \<in> set rpre. ra n = None \<and> ra1 n = IRotator_locals n \<and> ra1 n \<noteq> None" by blast
qed


theorem setup_not_atomic_witness:
  "(\<exists>err. IStack_run_cls [''stack_add'', ''missing''] 0 (OVal VNone) (Dict Map.empty) ()
            = (Dict [''stack_add'' \<mapsto> Builtin StackAdd], Some (SetupError err, ())))
   \<and> (\<exists>err st. IRotator_run 0 (OVal VNone) (Dict [''wait_coro'' \<mapsto> NonAction]) ()
            = (Dict [''wait_coro'' \<mapsto> NonAction, ''new_coro'' \<mapsto> Builtin NewCoro],
               Some (SetupError err, st)))
   \<and> ([''wait_coro'' \<mapsto> NonAction] :: (rot_builtin, unit) table) ''new_coro'' = None"
proof -
  have s1: "check_names [''stack_add''] (Map.empty :: (stack_builtin, unit) table) IStack_locals
              = ([''stack_add'' \<mapsto> Builtin StackAdd], None)"
    by (simp add: IStack_locals_def)
  have s2: "(IStack_locals :: (stack_builtin, unit) table) ''missing'' = None"
    by (simp add: IStack_locals_def)
  have r1: "check_names [''new_coro''] ([''wait_coro'' \<mapsto> NonAction] :: (rot_builtin, unit) table)
              IRotator_locals
              = ([''wait_coro'' \<mapsto> NonAction, ''new_coro'' \<mapsto> Builtin NewCoro], None)"
    by (simp add: IRotator_locals_def)
  have r2: "([''wait_coro'' \<mapsto> NonAction] :: (rot_builtin, unit) table) ''wait_coro'' \<noteq> None"
    by simp
  note t = setup_not_atomic[of "[''stack_add'']" Map.empty "[''stack_add'' \<mapsto> Builtin StackAdd]"
      "''missing''" "[]" 0 "OVal VNone" "()"
      "[''new_coro'']" "[''wait_coro'' \<mapsto> NonAction]"
      "[''wait_coro'' \<mapsto> NonAction, ''new_coro'' \<mapsto> Builtin NewCoro]" "''wait_coro''"
      "[''this_id'', ''this_info'', ''all_info'', ''schedule'']"]
  note ts = mp[OF conjunct1[OF t] conjI[OF s1 disjI2[OF s2]]]
  note tr = mp[OF conjunct2[OF t] conjI[OF r1 disjI1[OF r2]]]
  have a: "\<exists>err. IStack_run_cls [''stack_add'', ''missing''] 0 (OVal VNone) (Dict Map.empty) ()
            = (Dict [''stack_add'' \<mapsto> Builtin StackAdd], Some (SetupError err, ()))"
    using conjunct1[OF ts] by auto
  have b: "\<exists>err st. IRotator_run 0 (OVal VNone) (Dict [''wait_coro'' \<mapsto> NonAction]) ()
            = (Dict [''wait_coro'' \<mapsto> NonAction, ''new_coro'' \<mapsto> Builtin NewCoro],
               Some (SetupError err, st))"
    using conjunct1[OF tr] unfolding IRotator_run_def IRotator_reserved_def by auto
  have c: "([''wait_coro'' \<mapsto> NonAction] :: (rot_builtin, unit) table) ''new_coro'' = None"
    by simp
  from a b c show ?thesis by blast
qed

section \<open>The Stack engine\<close>






declare nest.simps [simp del]










section \<open>The Rotator: how a visit changes the state\<close>

lemma nth_upd: "xs[i := x] ! j = (if i = j \<and> i < length xs then x else xs ! j)"
  by (cases "i < length xs") (auto simp: list_update_beyond)

lemma rot_inv_alt:
  "rot_inv st \<longleftrightarrow>
     (\<forall>r < length (infos st). terminated (infos st ! r) \<longrightarrow> \<not> active (infos st ! r)) \<and>
     (\<forall>r \<in> set (coro_info st). r < length (infos st) \<and> \<not> terminated (infos st ! r))"
proof -
  have a: "list_all (\<lambda>i. terminated i \<longrightarrow> \<not> active i) (infos st) \<longleftrightarrow>
           (\<forall>r < length (infos st). terminated (infos st ! r) \<longrightarrow> \<not> active (infos st ! r))"
    by (simp add: list_all_length)
  have b: "list_all (\<lambda>r. r < length (infos st) \<and> \<not> terminated (infos st ! r)) (coro_info st) \<longleftrightarrow>
           (\<forall>r \<in> set (coro_info st). r < length (infos st) \<and> \<not> terminated (infos st ! r))"
    by (simp add: list_all_iff)
  show ?thesis unfolding rot_inv_def a b ..
qed

lemma length_wake [simp]: "length (wake ws infs) = length infs"
  by (induction ws arbitrary: infs) simp_all

lemma wake_nth:
  "r < length infs \<Longrightarrow>
   (wake ws infs ! r = infs ! r \<or>
    (\<not> terminated (infs ! r) \<and>
     wake ws infs ! r = (infs ! r)\<lparr>active := True, val := VNone, exc := None\<rparr>))"
proof (induction ws arbitrary: infs)
  case Nil
  then show ?case by simp
next
  case (Cons w ws)
  let ?infs' = "if \<not> terminated (infs ! w)
              then infs[w := (infs ! w)\<lparr>active := True, val := VNone, exc := None\<rparr>] else infs"
  have len: "r < length ?infs'" using Cons.prems by simp
  have step: "?infs' ! r = infs ! r \<or>
     (\<not> terminated (infs ! r) \<and> ?infs' ! r = (infs ! r)\<lparr>active := True, val := VNone, exc := None\<rparr>)"
    using Cons.prems by (cases "w = r") auto
  from Cons.IH[OF len] step show ?case
    by (auto simp del: wake.simps simp add: wake.simps(2)[of w ws infs])
qed

lemma wake_member:
  "w \<in> set ws \<Longrightarrow> w < length infs \<Longrightarrow> \<not> terminated (infs ! w) \<Longrightarrow>
   active (wake ws infs ! w)"
proof (induction ws arbitrary: infs)
  case Nil
  then show ?case by simp
next
  case (Cons x ws)
  let ?infs' = "if \<not> terminated (infs ! x)
              then infs[x := (infs ! x)\<lparr>active := True, val := VNone, exc := None\<rparr>] else infs"
  have l: "w < length ?infs'" using Cons.prems by simp
  have nt: "\<not> terminated (?infs' ! w)" using Cons.prems by (simp add: nth_upd)
  show ?case
  proof (cases "w \<in> set ws")
    case True
    from Cons.IH[OF True l nt] show ?thesis by simp
  next
    case False
    with Cons.prems have wx: "w = x" by simp
    have "active (?infs' ! w)" using Cons.prems wx by simp
    moreover have "wake ws ?infs' ! w = ?infs' ! w \<or> 
       wake ws ?infs' ! w = (?infs' ! w)\<lparr>active := True, val := VNone, exc := None\<rparr>"
      using wake_nth[OF l, of ws] by blast
    ultimately show ?thesis by auto
  qed
qed

lemma rot_except_state:
  "vstate (rot_except cid out st) =
     st\<lparr>infos := wake (waiting_coros (infos st ! cid))
                  ((infos st)[cid := (infos st ! cid)
                     \<lparr>active := False, terminated := True,
                      val := (case out of Returned v \<Rightarrow> v | Raised e \<Rightarrow> VNone),
                      exc := (case out of Returned v \<Rightarrow> None | Raised e \<Rightarrow> Some e)\<rparr>]),
        coro_info := removeAll cid (coro_info st)\<rparr>"
proof (cases "cid < length (infos st)")
  case True
  then show ?thesis by (cases out) (simp_all add: rot_except_def Let_def)
next
  case False
  then have "length (infos st) \<le> cid" by simp
  then show ?thesis by (cases out) (simp_all add: rot_except_def Let_def list_update_beyond)
qed

lemma wake_terminated:
  "r < length infs \<Longrightarrow> terminated (wake ws infs ! r) = terminated (infs ! r)"
  using wake_nth[of r infs ws] by auto

lemma wake_frozen:
  "r < length infs \<Longrightarrow> terminated (infs ! r) \<Longrightarrow> wake ws infs ! r = infs ! r"
  using wake_nth[of r infs ws] by auto


lemma wake_inv:
  "r < length infs \<Longrightarrow> terminated (infs ! r) \<longrightarrow> \<not> active (infs ! r) \<Longrightarrow>
   terminated (wake ws infs ! r) \<longrightarrow> \<not> active (wake ws infs ! r)"
  using wake_nth[of r infs ws] by auto

lemma visit_loop_inactive:
  "\<not> (a \<and> active (infos st ! cid)) \<Longrightarrow> visit_loop n actions cid a st = Some (Suspended a st)"
  by (cases n) auto

lemma visit_loop_yield:
  assumes "a \<and> active (infos st ! cid)"
      and "resume (coro (infos st ! cid)) (val (infos st ! cid)) (exc (infos st ! cid)) = Yield req k"
      and "get_action actions (rot_call cid) req
             (a, st\<lparr>infos := (infos st)[cid := (infos st ! cid)\<lparr>coro := OCoro k\<rparr>]\<rparr>) = (Inr v, a', st')"
  shows "visit_loop (Suc n) actions cid a st =
           visit_loop n actions cid a'
             (st'\<lparr>infos := (infos st')[cid := (infos st' ! cid)\<lparr>val := v, exc := None\<rparr>]\<rparr>)"
  using assms by simp

lemma rot_call_cases:
  assumes "rot_call cid h as kw (a, s) = (r, a', s')"
  obtains (same) "s' = s"
  | (spawn) c where "s' = s\<lparr>infos := infos s @ [new_info c], coro_info := coro_info s @ [length (infos s)]\<rparr>"
  | (wait) r0 where "r0 < length (infos s)" "\<not> terminated (infos s ! r0)"
      "s' = s\<lparr>infos := ((infos s)[r0 := (infos s ! r0)\<lparr>waiting_coros := waiting_coros (infos s ! r0) @ [cid]\<rparr>])
                         [cid := (((infos s)[r0 := (infos s ! r0)\<lparr>waiting_coros := waiting_coros (infos s ! r0) @ [cid]\<rparr>]) ! cid)
                                   \<lparr>active := False\<rparr>]\<rparr>"
  | (user) u' where "s' = s\<lparr>ustate := u'\<rparr>"
  using assms
  by (elim rot_call.elims) (auto simp: coro_adder_send_def Let_def split: if_splits prod.splits)

lemma visit_loop_preserves:
  assumes coro_step: "\<And>s req k. Q s \<Longrightarrow> active (infos s ! cid) \<Longrightarrow>
            resume (coro (infos s ! cid)) (val (infos s ! cid)) (exc (infos s ! cid)) = Yield req k \<Longrightarrow>
            Q (s\<lparr>infos := (infos s)[cid := (infos s ! cid)\<lparr>coro := OCoro k\<rparr>]\<rparr>)"
    and call_step: "\<And>s h as kw a r a' s'. Q s \<Longrightarrow> rot_call cid h as kw (a, s) = (r, a', s') \<Longrightarrow> Q s'"
    and val_step: "\<And>s v e. Q s \<Longrightarrow>
            Q (s\<lparr>infos := (infos s)[cid := (infos s ! cid)\<lparr>val := v, exc := e\<rparr>]\<rparr>)"
    and ret_step: "\<And>s v. Q s \<Longrightarrow> active (infos s ! cid) \<Longrightarrow>
            resume (coro (infos s ! cid)) (val (infos s ! cid)) (exc (infos s ! cid)) = Return v \<Longrightarrow>
            Q (vstate (rot_except cid (Returned v) s))"
    and raise_step: "\<And>s e. Q s \<Longrightarrow> active (infos s ! cid) \<Longrightarrow>
            resume (coro (infos s ! cid)) (val (infos s ! cid)) (exc (infos s ! cid)) = Raise e \<Longrightarrow>
            Q (vstate (rot_except cid (Raised e) s))"
    and fatal_step: "\<And>s e. Q s \<Longrightarrow> \<not> is_Exception e \<Longrightarrow>
            Q (vstate (rot_except cid (Raised e) s))"
  shows "Q st \<Longrightarrow> visit_loop n actions cid a st = Some res \<Longrightarrow> Q (vstate res)"
proof (induction n arbitrary: a st)
  case 0
  then show ?case by (auto split: if_splits)
next
  case (Suc n)
  let ?ci = "infos st ! cid"
  show ?case
  proof (cases "a \<and> active ?ci")
    case False
    with Suc.prems show ?thesis by auto
  next
    case True
    then have act: "active ?ci" by simp
    show ?thesis
    proof (cases "resume (coro ?ci) (val ?ci) (exc ?ci)")
      case (Return v)
      with Suc.prems True have "res = rot_except cid (Returned v) st" by simp
      with ret_step[OF Suc.prems(1) act Return] show ?thesis by simp
    next
      case (Raise e)
      with Suc.prems True have "res = rot_except cid (Raised e) st" by simp
      with raise_step[OF Suc.prems(1) act Raise] show ?thesis by simp
    next
      case (Yield req k)
      let ?s1 = "st\<lparr>infos := (infos st)[cid := ?ci\<lparr>coro := OCoro k\<rparr>]\<rparr>"
      have q1: "Q ?s1" using coro_step[OF Suc.prems(1) act Yield] .
      obtain r a' s2 where ga: "get_action actions (rot_call cid) req (a, ?s1) = (r, a', s2)"
        by (cases "get_action actions (rot_call cid) req (a, ?s1)") auto
      have q2: "Q s2"
      proof (cases "actions (req_name req)")
        case None
        with ga have "s2 = ?s1" by (simp add: get_action_def)
        with q1 show ?thesis by simp
      next
        case (Some h)
        with ga have "rot_call cid h (req_args req) (req_kwargs req) (a, ?s1) = (r, a', s2)"
          by (simp add: get_action_def)
        from call_step[OF q1 this] show ?thesis .
      qed
      show ?thesis
      proof (cases r)
        case (Inr v)
        let ?s3 = "s2\<lparr>infos := (infos s2)[cid := (infos s2 ! cid)\<lparr>val := v, exc := None\<rparr>]\<rparr>"
        have "visit_loop n actions cid a' ?s3 = Some res"
          using Suc.prems(2) True Yield ga Inr by simp
        from Suc.IH[OF val_step[OF q2] this] show ?thesis .
      next
        case (Inl e)
        show ?thesis
        proof (cases "is_Exception e")
          case True
          let ?s3 = "s2\<lparr>infos := (infos s2)[cid := (infos s2 ! cid)\<lparr>val := VNone, exc := Some e\<rparr>]\<rparr>"
          have "visit_loop n actions cid a' ?s3 = Some res"
            using Suc.prems(2) \<open>a \<and> active ?ci\<close> Yield ga Inl True by simp
          from Suc.IH[OF val_step[OF q2] this] show ?thesis .
        next
          case False
          have "res = rot_except cid (Raised e) s2"
            using Suc.prems(2) True Yield ga Inl False by simp
          with fatal_step[OF q2 False] show ?thesis by simp
        qed
      qed
    qed
  qed
qed

lemma sweep_preserves:
  assumes "\<And>cid s res. cid \<in> set cs \<Longrightarrow> Q s \<Longrightarrow> visit n actions cid s = Some res \<Longrightarrow> Q (vstate res)"
  shows "Q st \<Longrightarrow> sweep n actions cs st = Some out \<Longrightarrow>
         Q (rstate out)"
  using assms
proof (induction cs arbitrary: st)
  case Nil
  then show ?case by auto
next
  case (Cons c cs)
  from Cons.prems(2) obtain res where v: "visit n actions c st = Some res"
    by (cases "visit n actions c st") auto
  have q: "Q (vstate res)" using Cons.prems(3)[of c st res] Cons.prems(1) v by simp
  have ih: "Q (rstate out)"
    if "Q s" "sweep n actions cs s = Some out" for s
  proof (rule Cons.IH[OF that])
    fix cid s res
    assume "cid \<in> set cs" "Q s" "visit n actions cid s = Some res"
    then show "Q (vstate res)" using Cons.prems(3)[of cid s res] by simp
  qed
  show ?case
  proof (cases res)
    case (Suspended a s)
    with v Cons.prems(2) have "sweep n actions cs s = Some out" by simp
    from ih[OF _ this] q Suspended show ?thesis by simp
  next
    case (Terminated s)
    with v Cons.prems(2) have "sweep n actions cs s = Some out" by simp
    from ih[OF _ this] q Terminated show ?thesis by simp
  next
    case (Aborted e s)
    with v Cons.prems(2) have "out = Inl (e, s)" by simp
    with q Aborted show ?thesis by simp
  qed
qed

lemma rot_inv_call:
  assumes "rot_inv s" "rot_call cid h as kw (a, s) = (r, a', s')"
  shows "rot_inv s'"
  using assms(2)
proof (cases rule: rot_call_cases)
  case same
  with assms show ?thesis by simp
next
  case (spawn c)
  with assms(1) show ?thesis
    by (auto simp: rot_inv_alt nth_append new_info_def)
next
  case (wait r0)
  with assms(1) show ?thesis
    by (auto simp: rot_inv_alt nth_upd)
next
  case (user u')
  with assms(1) show ?thesis by (simp add: rot_inv_alt)
qed

lemma rot_inv_except:
  assumes "rot_inv s"
  shows "rot_inv (vstate (rot_except cid out s))"
proof -
  let ?is2 = "(infos s)[cid := (infos s ! cid)
                     \<lparr>active := False, terminated := True,
                      val := (case out of Returned v \<Rightarrow> v | Raised e \<Rightarrow> VNone),
                      exc := (case out of Returned v \<Rightarrow> None | Raised e \<Rightarrow> Some e)\<rparr>]"
  let ?ws = "waiting_coros (infos s ! cid)"
  have a: "terminated (wake ?ws ?is2 ! r) \<longrightarrow> \<not> active (wake ?ws ?is2 ! r)"
    if "r < length (infos s)" for r
  proof (rule wake_inv)
    show "r < length ?is2" using that by simp
    show "terminated (?is2 ! r) \<longrightarrow> \<not> active (?is2 ! r)"
      using assms that by (auto simp: rot_inv_alt nth_upd)
  qed
  have b: "r < length (infos s) \<and> \<not> terminated (wake ?ws ?is2 ! r)"
    if "r \<in> set (removeAll cid (coro_info s))" for r
  proof -
    from that have rc: "r \<noteq> cid" and "r \<in> set (coro_info s)" by auto
    with assms have rl: "r < length (infos s)" and nt: "\<not> terminated (infos s ! r)"
      by (auto simp: rot_inv_alt)
    have "terminated (wake ?ws ?is2 ! r) = terminated (?is2 ! r)"
      using rl by (simp add: wake_terminated)
    with rc rl nt show ?thesis by (simp add: nth_upd)
  qed
  show ?thesis
    unfolding rot_except_state rot_inv_alt using a b by simp
qed

lemma rot_inv_visit_loop:
  "rot_inv st \<Longrightarrow> visit_loop n actions cid a st = Some res \<Longrightarrow> rot_inv (vstate res)"
proof (rule visit_loop_preserves[where Q = rot_inv and cid = cid])
  fix s :: "'a rot" and k
  assume "rot_inv s"
  then show "rot_inv (s\<lparr>infos := (infos s)[cid := (infos s ! cid)\<lparr>coro := OCoro k\<rparr>]\<rparr>)"
    by (auto simp: rot_inv_alt nth_upd)
next
  fix s :: "'a rot" and v e
  assume "rot_inv s"
  then show "rot_inv (s\<lparr>infos := (infos s)[cid := (infos s ! cid)\<lparr>val := v, exc := e\<rparr>]\<rparr>)"
    by (auto simp: rot_inv_alt nth_upd)
qed (auto intro: rot_inv_call rot_inv_except)

section \<open>The Rotator: the actions schedule and wait_coro\<close>

text \<open>
  Claim C8, as the code has it. \<open>schedule()\<close> calls \<open>_pull_active\<close>, which
  clears the variable \<open>active\<close> of \<open>run\<close>, not the key \<open>active\<close> of the
  caller's info dict. When the current coroutine \<open>cid\<close> awaits \<open>schedule()\<close>,
  its visit ends at once, its info dict stays active (and unchanged but for
  the coroutine's progress and the result \<open>None\<close>), and the next visit, in
  the next sweep, resumes it with \<open>None\<close>.
\<close>

theorem schedule_ends_visit:
  assumes tab: "actions ''schedule'' = Some (Builtin Schedule)"
      and cid: "cid < length (infos st)"
      and act: "active (infos st ! cid)"
      and req: "resume (coro (infos st ! cid)) (val (infos st ! cid)) (exc (infos st ! cid))
                  = Yield (Request ''schedule'' [] []) k"
      and st': "st' = st\<lparr>infos := (infos st)[cid := (infos st ! cid)\<lparr>coro := OCoro k, val := VNone, exc := None\<rparr>]\<rparr>"
  shows "visit_loop (Suc n) actions cid True st = Some (Suspended False st')
       \<and> active (infos st' ! cid) = True
       \<and> terminated (infos st' ! cid) = terminated (infos st ! cid)
       \<and> visit m actions cid st' = visit_loop m actions cid True st'
       \<and> (send k VNone = Return v \<longrightarrow>
            visit (Suc m) actions cid st' = Some (rot_except cid (Returned v) st'))"
proof -
  let ?s1 = "st\<lparr>infos := (infos st)[cid := (infos st ! cid)\<lparr>coro := OCoro k\<rparr>]\<rparr>"
  have ga: "get_action actions (rot_call cid) (Request ''schedule'' [] []) (True, ?s1) = (Inr VNone, False, ?s1)"
    using tab by (simp add: get_action_def)
  have s3: "?s1\<lparr>infos := (infos ?s1)[cid := (infos ?s1 ! cid)\<lparr>val := VNone, exc := None\<rparr>]\<rparr> = st'"
    using cid st' by simp
  have "visit_loop (Suc n) actions cid True st =
        visit_loop n actions cid False
          (?s1\<lparr>infos := (infos ?s1)[cid := (infos ?s1 ! cid)\<lparr>val := VNone, exc := None\<rparr>]\<rparr>)"
    using act req ga by (intro visit_loop_yield) simp_all
  then have a: "visit_loop (Suc n) actions cid True st = Some (Suspended False st')"
    unfolding s3 by (simp add: visit_loop_inactive)
  have b: "active (infos st' ! cid) = True" using cid act st' by simp
  have c: "terminated (infos st' ! cid) = terminated (infos st ! cid)" using cid st' by simp
  have d: "visit m actions cid st' = visit_loop m actions cid True st'"
    using b by (simp add: visit_def)
  have e: "visit (Suc m) actions cid st' = Some (rot_except cid (Returned v) st')"
    if "send k VNone = Return v"
    using that b cid st' by (simp add: visit_def)
  from a b c d e show ?thesis by blast
qed


theorem schedule_ends_visit_witness:
  "visit_loop 1 rot_builtins 0 True
      (rot_init (OCoro (asking (Request ''schedule'' [] []) (nest 0 (VInt 7)))) ())
     = Some (Suspended False
         \<lparr>infos = [\<lparr>val = VNone, exc = None, coro = OCoro (nest 0 (VInt 7)), active = True,
                     terminated = False, waiting_coros = []\<rparr>],
          coro_info = [0], ustate = ()\<rparr>)
   \<and> visit 1 rot_builtins 0
        \<lparr>infos = [\<lparr>val = VNone, exc = None, coro = OCoro (nest 0 (VInt 7)), active = True,
                     terminated = False, waiting_coros = []\<rparr>],
          coro_info = [0], ustate = ()\<rparr>
     = Some (Terminated
         \<lparr>infos = [\<lparr>val = VInt 7, exc = None, coro = OCoro (nest 0 (VInt 7)), active = False,
                     terminated = True, waiting_coros = []\<rparr>],
          coro_info = [], ustate = ()\<rparr>)"
proof -
  let ?st = "rot_init (OCoro (asking (Request ''schedule'' [] []) (nest 0 (VInt 7)))) ()"
  let ?st' = "\<lparr>infos = [\<lparr>val = VNone, exc = None, coro = OCoro (nest 0 (VInt 7)), active = True,
                     terminated = False, waiting_coros = []\<rparr>],
          coro_info = [0], ustate = ()\<rparr>"
  have tab: "(rot_builtins :: (rot_builtin, unit) table) ''schedule'' = Some (Builtin Schedule)"
    by (simp add: rot_builtins_def)
  have st: "?st = \<lparr>infos = [new_info (OCoro (asking (Request ''schedule'' [] []) (nest 0 (VInt 7))))],
                   coro_info = [0], ustate = ()\<rparr>"
    by (simp add: rot_init_def coro_adder_send_def)
  have cid: "0 < length (infos ?st)" unfolding st by simp
  have act: "active (infos ?st ! 0)" unfolding st by (simp add: new_info_def)
  have req: "resume (coro (infos ?st ! 0)) (val (infos ?st ! 0)) (exc (infos ?st ! 0))
                  = Yield (Request ''schedule'' [] []) (nest 0 (VInt 7))"
    unfolding st by (simp add: new_info_def asking_def)
  have st': "?st' = ?st\<lparr>infos := (infos ?st)[0 := (infos ?st ! 0)
                 \<lparr>coro := OCoro (nest 0 (VInt 7)), val := VNone, exc := None\<rparr>]\<rparr>"
    unfolding st by (simp add: new_info_def)
  have ret: "send (nest 0 (VInt 7)) VNone = Return (VInt 7)" by (simp add: nest.simps)
  note t = schedule_ends_visit[where actions = "rot_builtins :: (rot_builtin, unit) table"
      and n = 0 and m = 0 and v = "VInt 7", OF tab cid act req st']
  have a: "visit_loop 1 rot_builtins 0 True ?st = Some (Suspended False ?st')"
    using conjunct1[OF t] by simp
  have "visit (Suc 0) rot_builtins 0 ?st' = Some (rot_except 0 (Returned (VInt 7)) ?st')"
    using t ret by blast
  then have b: "visit 1 rot_builtins 0 ?st' = Some (Terminated
         \<lparr>infos = [\<lparr>val = VInt 7, exc = None, coro = OCoro (nest 0 (VInt 7)), active = False,
                     terminated = True, waiting_coros = []\<rparr>],
          coro_info = [], ustate = ()\<rparr>)"
    by (simp add: rot_except_def)
  from a b show ?thesis by blast
qed

text \<open>
  Claim C8 as stated fails: after the root task has awaited \<open>schedule()\<close>,
  the key \<open>active\<close> of its info dict is still true.
\<close>

theorem schedule_leaves_record_active:
  "visit 1 rot_builtins 0 (rot_init (OCoro (asking (Request ''schedule'' [] []) returner)) ())
     = Some (Suspended False
         \<lparr>infos = [\<lparr>val = VNone, exc = None, coro = OCoro returner, active = True,
                     terminated = False, waiting_coros = []\<rparr>],
          coro_info = [0], ustate = ()\<rparr>)"
  by (simp add: visit_def rot_init_def coro_adder_send_def new_info_def asking_def
      rot_builtins_def get_action_def)

text \<open>
  Claim C5. The current coroutine \<open>cid\<close> awaits \<open>wait_coro(record)\<close>, where
  \<open>record\<close> is the info dict at \<open>r\<close>. If the dict is not terminated, the
  caller's dict is appended to its \<open>waiting_coros\<close> and the caller's
  \<open>active\<close> becomes false: the visit ends, nothing else changes, later
  visits do not resume the caller, and the termination of \<open>r\<close> makes it
  active again. If the dict is terminated, nothing is appended and the
  visit goes on: the caller is resumed with \<open>None\<close> at once.
\<close>

theorem wait_coro_suspends_caller:
  assumes tab: "actions ''wait_coro'' = Some (Builtin WaitCoro)"
      and cid: "cid < length (infos st)"
      and r: "r < length (infos st)"
      and act: "active (infos st ! cid)"
      and req: "resume (coro (infos st ! cid)) (val (infos st ! cid)) (exc (infos st ! cid))
                  = Yield (Request ''wait_coro'' [OVal (VInfo r)] []) k"
  shows "(\<not> terminated (infos st ! r) \<longrightarrow>
            (\<exists>st'. visit_loop (Suc n) actions cid True st = Some (Suspended True st')
               \<and> waiting_coros (infos st' ! r) = waiting_coros (infos st ! r) @ [cid]
               \<and> active (infos st' ! cid) = False
               \<and> coro (infos st' ! cid) = OCoro k
               \<and> val (infos st' ! cid) = VNone \<and> exc (infos st' ! cid) = None
               \<and> terminated (infos st' ! cid) = terminated (infos st ! cid)
               \<and> length (infos st') = length (infos st)
               \<and> coro_info st' = coro_info st \<and> ustate st' = ustate st
               \<and> (\<forall>j < length (infos st). j \<noteq> cid \<and> j \<noteq> r \<longrightarrow> infos st' ! j = infos st ! j)
               \<and> (\<forall>m. visit m actions cid st' = Some (Suspended False st'))
               \<and> (r \<noteq> cid \<and> \<not> terminated (infos st ! cid) \<longrightarrow>
                    (\<forall>out. active (infos (vstate (rot_except r out st')) ! cid)))))
       \<and> (terminated (infos st ! r) \<longrightarrow>
            visit_loop (Suc n) actions cid True st =
              visit_loop n actions cid True
                (st\<lparr>infos := (infos st)[cid := (infos st ! cid)
                                 \<lparr>coro := OCoro k, val := VNone, exc := None\<rparr>]\<rparr>))"
proof (intro conjI impI)
  let ?s1 = "st\<lparr>infos := (infos st)[cid := (infos st ! cid)\<lparr>coro := OCoro k\<rparr>]\<rparr>"
  have t1: "terminated (infos ?s1 ! r) = terminated (infos st ! r)"
    using cid r by (simp add: nth_upd)
  {
    assume nt: "\<not> terminated (infos st ! r)"
    let ?i1 = "(infos ?s1)[r := (infos ?s1 ! r)\<lparr>waiting_coros := waiting_coros (infos ?s1 ! r) @ [cid]\<rparr>]"
    let ?i2 = "?i1[cid := (?i1 ! cid)\<lparr>active := False\<rparr>]"
    let ?s2 = "?s1\<lparr>infos := ?i2\<rparr>"
    let ?st' = "?s2\<lparr>infos := (infos ?s2)[cid := (infos ?s2 ! cid)\<lparr>val := VNone, exc := None\<rparr>]\<rparr>"
    have ga: "get_action actions (rot_call cid) (Request ''wait_coro'' [OVal (VInfo r)] []) (True, ?s1)
                = (Inr VNone, True, ?s2)"
      using tab r nt t1 by (simp add: get_action_def Let_def)
    have step: "visit_loop (Suc n) actions cid True st = visit_loop n actions cid True ?st'"
      using act req ga by (intro visit_loop_yield) simp_all
    have inact: "active (infos ?st' ! cid) = False" using cid by simp
    have v1: "visit_loop (Suc n) actions cid True st = Some (Suspended True ?st')"
      unfolding step using inact by (simp add: visit_loop_inactive)
    have w: "waiting_coros (infos ?st' ! r) = waiting_coros (infos st ! r) @ [cid]"
      using cid r by (cases "r = cid") (simp_all add: nth_upd)
    have others: "\<forall>j < length (infos st). j \<noteq> cid \<and> j \<noteq> r \<longrightarrow> infos ?st' ! j = infos st ! j"
      by (simp add: nth_upd)
    have later: "\<forall>m. visit m actions cid ?st' = Some (Suspended False ?st')"
      unfolding visit_def using inact by (simp add: visit_loop_inactive)
    have tc: "terminated (infos ?st' ! cid) = terminated (infos st ! cid)"
      using cid r by (cases "r = cid") (simp_all add: nth_upd)
    have woken: "\<forall>out. active (infos (vstate (rot_except r out ?st')) ! cid)"
      if rc: "r \<noteq> cid" and ntc: "\<not> terminated (infos st ! cid)"
    proof
      fix out
      let ?is2 = "(infos ?st')[r := (infos ?st' ! r)
                     \<lparr>active := False, terminated := True,
                      val := (case out of Returned v \<Rightarrow> v | Raised e \<Rightarrow> VNone),
                      exc := (case out of Returned v \<Rightarrow> None | Raised e \<Rightarrow> Some e)\<rparr>]"
      have "active (wake (waiting_coros (infos ?st' ! r)) ?is2 ! cid)"
      proof (rule wake_member)
        show "cid \<in> set (waiting_coros (infos ?st' ! r))" unfolding w by simp
        show "cid < length ?is2" using cid by simp
        show "\<not> terminated (?is2 ! cid)" using rc ntc cid r by (simp add: nth_upd)
      qed
      then show "active (infos (vstate (rot_except r out ?st')) ! cid)"
        unfolding rot_except_state by simp
    qed
    show "\<exists>st'. visit_loop (Suc n) actions cid True st = Some (Suspended True st')
               \<and> waiting_coros (infos st' ! r) = waiting_coros (infos st ! r) @ [cid]
               \<and> active (infos st' ! cid) = False
               \<and> coro (infos st' ! cid) = OCoro k
               \<and> val (infos st' ! cid) = VNone \<and> exc (infos st' ! cid) = None
               \<and> terminated (infos st' ! cid) = terminated (infos st ! cid)
               \<and> length (infos st') = length (infos st)
               \<and> coro_info st' = coro_info st \<and> ustate st' = ustate st
               \<and> (\<forall>j < length (infos st). j \<noteq> cid \<and> j \<noteq> r \<longrightarrow> infos st' ! j = infos st ! j)
               \<and> (\<forall>m. visit m actions cid st' = Some (Suspended False st'))
               \<and> (r \<noteq> cid \<and> \<not> terminated (infos st ! cid) \<longrightarrow>
                    (\<forall>out. active (infos (vstate (rot_except r out st')) ! cid)))"
    proof (intro exI[of _ ?st'] conjI)
      show "coro (infos ?st' ! cid) = OCoro k" using cid r by (simp add: nth_upd)
      show "val (infos ?st' ! cid) = VNone" using cid by simp
      show "exc (infos ?st' ! cid) = None" using cid by simp
      show "length (infos ?st') = length (infos st)" by simp
      show "coro_info ?st' = coro_info st" by simp
      show "ustate ?st' = ustate st" by simp
      show "r \<noteq> cid \<and> \<not> terminated (infos st ! cid) \<longrightarrow>
                    (\<forall>out. active (infos (vstate (rot_except r out ?st')) ! cid))"
        using woken by blast
    qed (rule v1 w inact others later tc)+
  }
  {
    assume t: "terminated (infos st ! r)"
    have ga: "get_action actions (rot_call cid) (Request ''wait_coro'' [OVal (VInfo r)] []) (True, ?s1)
                = (Inr VNone, True, ?s1)"
      using tab r t t1 by (simp add: get_action_def)
    have "visit_loop (Suc n) actions cid True st =
          visit_loop n actions cid True
             (?s1\<lparr>infos := (infos ?s1)[cid := (infos ?s1 ! cid)\<lparr>val := VNone, exc := None\<rparr>]\<rparr>)"
      using act req ga by (intro visit_loop_yield) simp_all
    then show "visit_loop (Suc n) actions cid True st =
              visit_loop n actions cid True
                (st\<lparr>infos := (infos st)[cid := (infos st ! cid)
                                 \<lparr>coro := OCoro k, val := VNone, exc := None\<rparr>]\<rparr>)"
      using cid by simp
  }
qed

theorem wait_coro_suspends_caller_witness:
  "(\<exists>st'. visit_loop 1 rot_builtins 0 True
             \<lparr>infos = [new_info (OCoro (asking (Request ''wait_coro'' [OVal (VInfo 1)] []) returner)),
                       new_info (OCoro returner)],
              coro_info = [0, 1], ustate = ()\<rparr> = Some (Suspended True st')
          \<and> waiting_coros (infos st' ! 1) = [0] \<and> active (infos st' ! 0) = False
          \<and> coro (infos st' ! 0) = OCoro returner)
   \<and> visit_loop 2 rot_builtins 0 True
        \<lparr>infos = [new_info (OCoro (asking (Request ''wait_coro'' [OVal (VInfo 1)] []) returner)),
                  (new_info (OCoro returner))\<lparr>active := False, terminated := True\<rparr>],
         coro_info = [0], ustate = ()\<rparr>
      = Some (Terminated
          \<lparr>infos = [\<lparr>val = VNone, exc = None, coro = OCoro returner, active = False,
                      terminated = True, waiting_coros = []\<rparr>,
                    (new_info (OCoro returner))\<lparr>active := False, terminated := True\<rparr>],
           coro_info = [], ustate = ()\<rparr>)"
proof -
  let ?A = "asking (Request ''wait_coro'' [OVal (VInfo 1)] []) returner"
  let ?st = "\<lparr>infos = [new_info (OCoro ?A), new_info (OCoro returner)],
              coro_info = [0, 1], ustate = ()\<rparr>"
  let ?st2 = "\<lparr>infos = [new_info (OCoro ?A),
                  (new_info (OCoro returner))\<lparr>active := False, terminated := True\<rparr>],
         coro_info = [0], ustate = ()\<rparr>"
  have tab: "(rot_builtins :: (rot_builtin, unit) table) ''wait_coro'' = Some (Builtin WaitCoro)"
    by (simp add: rot_builtins_def)
  have req: "resume (coro (infos ?st ! 0)) (val (infos ?st ! 0)) (exc (infos ?st ! 0))
                  = Yield (Request ''wait_coro'' [OVal (VInfo 1)] []) returner"
    by (simp add: new_info_def asking_def)
  have req2: "resume (coro (infos ?st2 ! 0)) (val (infos ?st2 ! 0)) (exc (infos ?st2 ! 0))
                  = Yield (Request ''wait_coro'' [OVal (VInfo 1)] []) returner"
    by (simp add: new_info_def asking_def)
  have nt: "\<not> terminated (infos ?st ! 1)" by (simp add: new_info_def)
  have t2: "terminated (infos ?st2 ! 1)" by simp
  note w1 = wait_coro_suspends_caller[where actions = "rot_builtins :: (rot_builtin, unit) table"
      and st = ?st and cid = 0 and r = 1 and n = 0, OF tab _ _ _ req]
  note w2 = wait_coro_suspends_caller[where actions = "rot_builtins :: (rot_builtin, unit) table"
      and st = ?st2 and cid = 0 and r = 1 and n = "Suc 0", OF tab _ _ _ req2]
  have a: "\<exists>st'. visit_loop 1 rot_builtins 0 True ?st = Some (Suspended True st')
          \<and> waiting_coros (infos st' ! 1) = [0] \<and> active (infos st' ! 0) = False
          \<and> coro (infos st' ! 0) = OCoro returner"
  proof -
    from w1 nt obtain st' where
      "visit_loop (Suc 0) rot_builtins 0 True ?st = Some (Suspended True st')"
      "waiting_coros (infos st' ! 1) = waiting_coros (infos ?st ! 1) @ [0]"
      "active (infos st' ! 0) = False" "coro (infos st' ! 0) = OCoro returner"
      by (auto simp: new_info_def)
    then show ?thesis by (auto simp: new_info_def)
  qed
  have "visit_loop (Suc (Suc 0)) rot_builtins 0 True ?st2 =
        visit_loop (Suc 0) rot_builtins 0 True
          (?st2\<lparr>infos := (infos ?st2)[0 := (infos ?st2 ! 0)
                                 \<lparr>coro := OCoro returner, val := VNone, exc := None\<rparr>]\<rparr>)"
    using w2 t2 by (simp add: new_info_def)
  then have b: "visit_loop 2 rot_builtins 0 True ?st2
      = Some (Terminated
          \<lparr>infos = [\<lparr>val = VNone, exc = None, coro = OCoro returner, active = False,
                      terminated = True, waiting_coros = []\<rparr>,
                    (new_info (OCoro returner))\<lparr>active := False, terminated := True\<rparr>],
           coro_info = [], ustate = ()\<rparr>)"
    by (simp add: numeral_2_eq_2 new_info_def returner_def rot_except_def)
  from a b show ?thesis by blast
qed

section \<open>The Rotator: termination is final\<close>

lemma frozen_visit_loop:
  assumes inv: "rot_inv st" and r: "r < length (infos st)" and t: "terminated (infos st ! r)"
      and v: "visit_loop n actions cid a st = Some res"
  shows "r < length (infos (vstate res)) \<and> infos (vstate res) ! r = infos st ! r"
proof (cases "cid = r")
  case True
  from inv r t have "\<not> active (infos st ! r)" by (auto simp: rot_inv_alt)
  with True have "visit_loop n actions cid a st = Some (Suspended a st)"
    by (simp add: visit_loop_inactive)
  with v r show ?thesis by auto
next
  case False
  let ?Q = "\<lambda>s. r < length (infos s) \<and> infos s ! r = infos st ! r"
  have ex: "?Q (vstate (rot_except cid out s))" if q: "?Q s" for s :: "'a rot" and out
  proof -
    let ?is2 = "(infos s)[cid := (infos s ! cid)
                     \<lparr>active := False, terminated := True,
                      val := (case out of Returned v \<Rightarrow> v | Raised e \<Rightarrow> VNone),
                      exc := (case out of Returned v \<Rightarrow> None | Raised e \<Rightarrow> Some e)\<rparr>]"
    have l: "r < length ?is2" using q by simp
    have same: "?is2 ! r = infos st ! r" using q False by (simp add: nth_upd)
    with t have "terminated (?is2 ! r)" by simp
    from wake_frozen[OF l this] same
    have "wake (waiting_coros (infos s ! cid)) ?is2 ! r = infos st ! r" by simp
    then show ?thesis unfolding rot_except_state using q by simp
  qed
  have call: "?Q s'" if q: "?Q s" and c: "rot_call cid h as kw (b, s) = (x, b', s')"
    for s s' :: "'a rot" and h as kw b x b'
    using c
  proof (cases rule: rot_call_cases)
    case same
    with q show ?thesis by simp
  next
    case (spawn c)
    with q show ?thesis by (simp add: nth_append)
  next
    case (wait r0)
    from wait(2) q t have "r0 \<noteq> r" by auto
    with wait q False show ?thesis by (simp add: nth_upd)
  next
    case (user u')
    with q show ?thesis by simp
  qed
  have "?Q (vstate res)"
  proof (rule visit_loop_preserves[where Q = ?Q and cid = cid and st = st, OF _ _ _ _ _ _ _ v])
    show "?Q st" using r by simp
  next
    fix s :: "'a rot" and k
    assume "?Q s"
    then show "?Q (s\<lparr>infos := (infos s)[cid := (infos s ! cid)\<lparr>coro := OCoro k\<rparr>]\<rparr>)"
      using False by (simp add: nth_upd)
  next
    fix s :: "'a rot" and v e
    assume "?Q s"
    then show "?Q (s\<lparr>infos := (infos s)[cid := (infos s ! cid)\<lparr>val := v, exc := e\<rparr>]\<rparr>)"
      using False by (simp add: nth_upd)
  qed (use ex call in blast)+
  then show ?thesis .
qed

lemma rot_loop_preserves:
  assumes "\<And>m cs s out. Q s \<Longrightarrow> sweep m actions cs s = Some out \<Longrightarrow> Q (rstate out)"
  shows "Q st \<Longrightarrow> rot_loop n actions st = Some out \<Longrightarrow> Q (rstate out)"
proof (induction n arbitrary: st)
  case 0
  then show ?case by (auto split: if_splits)
next
  case (Suc n)
  show ?case
  proof (cases "terminated (infos st ! 0)")
    case True
    with Suc.prems show ?thesis by auto
  next
    case False
    with Suc.prems(2) obtain o1 where sw: "sweep n actions (snapshot st) st = Some o1"
      by (cases "sweep n actions (snapshot st) st") auto
    have q1: "Q (rstate o1)" using assms[OF Suc.prems(1) sw] .
    show ?thesis
    proof (cases o1)
      case (Inl ab)
      with Suc.prems(2) False sw have "out = Inl ab" by simp
      with q1 Inl show ?thesis by simp
    next
      case (Inr s1)
      with Suc.prems(2) False sw have "rot_loop n actions s1 = Some out" by simp
      with Suc.IH[of s1] q1 Inr show ?thesis by simp
    qed
  qed
qed

lemma final_visit:
  assumes "rot_inv st \<and> r < length (infos st) \<and> infos st ! r = i0" and "terminated i0"
      and "visit n actions cid st = Some res"
  shows "rot_inv (vstate res) \<and> r < length (infos (vstate res)) \<and> infos (vstate res) ! r = i0"
  using assms rot_inv_visit_loop[of st n actions cid "active (infos st ! cid)" res]
    frozen_visit_loop[of st r n actions cid "active (infos st ! cid)" res]
  by (simp add: visit_def)

lemma final_sweep:
  assumes "rot_inv st \<and> r < length (infos st) \<and> infos st ! r = i0" and "terminated i0"
      and "sweep n actions cs st = Some out"
  shows "rot_inv (rstate out) \<and> r < length (infos (rstate out)) \<and> infos (rstate out) ! r = i0"
proof (rule sweep_preserves[where Q = "\<lambda>s. rot_inv s \<and> r < length (infos s) \<and> infos s ! r = i0",
      OF _ assms(1) assms(3)])
  fix cid s res
  assume q: "rot_inv s \<and> r < length (infos s) \<and> infos s ! r = i0"
    and v: "visit n actions cid s = Some res"
  show "rot_inv (vstate res) \<and> r < length (infos (vstate res)) \<and> infos (vstate res) ! r = i0"
    by (rule final_visit[OF q assms(2) v])
qed

lemma final_rot_loop:
  assumes "rot_inv st \<and> r < length (infos st) \<and> infos st ! r = i0" and "terminated i0"
      and "rot_loop n actions st = Some out"
  shows "rot_inv (rstate out) \<and> r < length (infos (rstate out)) \<and> infos (rstate out) ! r = i0"
proof (rule rot_loop_preserves[where Q = "\<lambda>s. rot_inv s \<and> r < length (infos s) \<and> infos s ! r = i0",
      OF _ assms(1) assms(3)])
  fix m cs s out
  assume q: "rot_inv s \<and> r < length (infos s) \<and> infos s ! r = i0"
    and v: "sweep m actions cs s = Some out"
  show "rot_inv (rstate out) \<and> r < length (infos (rstate out)) \<and> infos (rstate out) ! r = i0"
    by (rule final_sweep[OF q assms(2) v])
qed

lemma final_facts:
  assumes "rot_inv s \<and> r < length (infos s) \<and> infos s ! r = i0" and "terminated i0"
  shows "r \<notin> set (snapshot s) \<and> \<not> active (infos s ! r) \<and> terminated (infos s ! r)"
  using assms by (auto simp: rot_inv_alt snapshot_def)

lemma rot_inv_init: "rot_inv (rot_init c u)"
  by (simp add: rot_inv_def rot_init_def coro_adder_send_def new_info_def)

text \<open>
  Claim C9. Once the \<open>terminated\<close> flag of an info dict is true, the dict
  never changes again: it stays terminated and inactive, whatever
  coroutine is visited (also one that terminates with the dict in its
  \<open>waiting_coros\<close>: the wake-up loop skips it), through any sweep and to the
  end of the loop; and it is in no later snapshot of \<open>coro_info\<close>. The
  hypothesis \<open>rot_inv\<close> holds for the first state of every run and after
  every visit, sweep and loop.
\<close>

theorem terminated_is_final:
  assumes "rot_inv st" and "r < length (infos st)" and "terminated (infos st ! r)"
  shows "(visit n actions cid st = Some res \<longrightarrow>
            rot_inv (vstate res) \<and> infos (vstate res) ! r = infos st ! r
            \<and> r \<notin> set (snapshot (vstate res))
            \<and> \<not> active (infos (vstate res) ! r) \<and> terminated (infos (vstate res) ! r))
       \<and> (sweep n actions cs st = Some out \<longrightarrow>
            rot_inv (rstate out) \<and> infos (rstate out) ! r = infos st ! r
            \<and> r \<notin> set (snapshot (rstate out))
            \<and> \<not> active (infos (rstate out) ! r) \<and> terminated (infos (rstate out) ! r))
       \<and> (rot_loop n actions st = Some out' \<longrightarrow>
            rot_inv (rstate out') \<and> infos (rstate out') ! r = infos st ! r
            \<and> r \<notin> set (snapshot (rstate out'))
            \<and> \<not> active (infos (rstate out') ! r) \<and> terminated (infos (rstate out') ! r))
       \<and> (cid \<noteq> r \<longrightarrow> infos (vstate (rot_except cid oc st)) ! r = infos st ! r)
       \<and> rot_inv (rot_init c u)"
proof -
  have q: "rot_inv st \<and> r < length (infos st) \<and> infos st ! r = infos st ! r"
    using assms by simp
  have a: "rot_inv (vstate res) \<and> infos (vstate res) ! r = infos st ! r
            \<and> r \<notin> set (snapshot (vstate res))
            \<and> \<not> active (infos (vstate res) ! r) \<and> terminated (infos (vstate res) ! r)"
    if "visit n actions cid st = Some res"
    using final_visit[OF q assms(3) that] final_facts[OF final_visit[OF q assms(3) that] assms(3)]
    by simp
  have b: "rot_inv (rstate out) \<and> infos (rstate out) ! r = infos st ! r
            \<and> r \<notin> set (snapshot (rstate out))
            \<and> \<not> active (infos (rstate out) ! r) \<and> terminated (infos (rstate out) ! r)"
    if "sweep n actions cs st = Some out"
    using final_sweep[OF q assms(3) that] final_facts[OF final_sweep[OF q assms(3) that] assms(3)]
    by simp
  have c: "rot_inv (rstate out') \<and> infos (rstate out') ! r = infos st ! r
            \<and> r \<notin> set (snapshot (rstate out'))
            \<and> \<not> active (infos (rstate out') ! r) \<and> terminated (infos (rstate out') ! r)"
    if "rot_loop n actions st = Some out'"
    using final_rot_loop[OF q assms(3) that] final_facts[OF final_rot_loop[OF q assms(3) that] assms(3)]
    by simp
  have d: "infos (vstate (rot_except cid oc st)) ! r = infos st ! r" if ne: "cid \<noteq> r"
  proof -
    let ?is2 = "(infos st)[cid := (infos st ! cid)
                     \<lparr>active := False, terminated := True,
                      val := (case oc of Returned v \<Rightarrow> v | Raised e \<Rightarrow> VNone),
                      exc := (case oc of Returned v \<Rightarrow> None | Raised e \<Rightarrow> Some e)\<rparr>]"
    have l: "r < length ?is2" using assms(2) by simp
    have same: "?is2 ! r = infos st ! r" using ne by (simp add: nth_upd)
    with assms(3) have "terminated (?is2 ! r)" by simp
    from wake_frozen[OF l this] same show ?thesis unfolding rot_except_state by simp
  qed
  have e: "rot_inv (rot_init c u)" by (rule rot_inv_init)
  from a b c d e show ?thesis by blast
qed


theorem terminated_is_final_witness:
  "(\<exists>res. visit 1 rot_builtins 2
       \<lparr>infos = [new_info (OCoro returner),
                 (new_info (OCoro returner))\<lparr>val := VInt 1, active := False, terminated := True\<rparr>,
                 (new_info (OCoro returner))\<lparr>waiting_coros := [1, 0]\<rparr>],
        coro_info = [0, 2], ustate = ()\<rparr> = Some (Terminated res)
      \<and> infos res ! 1
          = (new_info (OCoro returner))\<lparr>val := VInt 1, active := False, terminated := True\<rparr>
      \<and> terminated (infos res ! 2)
      \<and> 1 \<notin> set (snapshot res) \<and> 2 \<notin> set (snapshot res))"
proof -
  let ?st = "\<lparr>infos = [new_info (OCoro returner),
                 (new_info (OCoro returner))\<lparr>val := VInt 1, active := False, terminated := True\<rparr>,
                 (new_info (OCoro returner))\<lparr>waiting_coros := [1, 0]\<rparr>],
        coro_info = [0, 2], ustate = ()\<rparr> :: unit rot"
  have inv: "rot_inv ?st" by (simp add: rot_inv_def new_info_def)
  have r: "1 < length (infos ?st)" by simp
  have t: "terminated (infos ?st ! 1)" by simp
  obtain res where v: "visit 1 rot_builtins 2 ?st = Some (Terminated res)"
    and t2: "terminated (infos res ! 2)" and s2: "2 \<notin> set (snapshot res)"
    by (simp add: visit_def new_info_def returner_def rot_except_def snapshot_def)
  note th = terminated_is_final[OF inv r t, where n = 1 and actions = rot_builtins and cid = 2
      and res = "Terminated res"]
  note th1 = mp[OF conjunct1[OF th] v]
  from th1 have "infos res ! 1 = infos ?st ! 1" and "1 \<notin> set (snapshot res)" by simp_all
  with v t2 s2 show ?thesis by auto
qed

section \<open>The Rotator: the order of a sweep\<close>

















lemma unrun_wait: "(i\<lparr>waiting_coros := ws\<rparr>)\<lparr>waiting_coros := []\<rparr> = i\<lparr>waiting_coros := []\<rparr>"
  by simp





section \<open>The Rotator: spawn and wait\<close>






section \<open>The result of run\<close>















lemma get_result_waiting [simp]: "get_result (i\<lparr>waiting_coros := ws\<rparr>) = get_result i"
  by (cases "exc i") (simp_all add: get_result_def)











end
